theory Spec2Isabelle
  imports Main
begin

section \<open>Strings\<close>

text \<open>
  A Python \<open>str\<close> is modelled as an Isabelle \<open>string\<close>, one \<open>char\<close> per code point;
  the model therefore covers the code points below 256.  The helpers below follow
  \<open>str.strip\<close>, \<open>str.rstrip\<close>, \<open>str.lower\<close>, \<open>str.startswith\<close>, \<open>str.endswith\<close>,
  \<open>str.split\<close> and \<open>str.replace\<close> on that range.
\<close>

definition space_chars :: "char list" where
  "space_chars = [CHR 0x09, CHR 0x0A, CHR 0x0B, CHR 0x0C, CHR 0x0D,
                  CHR 0x1C, CHR 0x1D, CHR 0x1E, CHR 0x1F, CHR 0x20, CHR 0x85, CHR 0xA0]"

definition is_space :: "char \<Rightarrow> bool" where
  "is_space c = (c \<in> set space_chars)"

definition digit_chars :: "char list" where
  "digit_chars = ''0123456789''"

definition is_digit :: "char \<Rightarrow> bool" where
  "is_digit c = (c \<in> set digit_chars)"

definition digit_val :: "char \<Rightarrow> int" where
  "digit_val c = int (of_char c) - 48"

definition rstrip :: "string \<Rightarrow> string" where
  "rstrip s = rev (dropWhile is_space (rev s))"

definition strip :: "string \<Rightarrow> string" where
  "strip s = rstrip (dropWhile is_space s)"

definition strip_chars :: "char \<Rightarrow> string \<Rightarrow> string" where
  "strip_chars x s = rev (dropWhile (\<lambda>c. c = x) (rev (dropWhile (\<lambda>c. c = x) s)))"

definition lower_char :: "char \<Rightarrow> char" where
  "lower_char c =
     (let n = (of_char c :: nat)
      in if (65 \<le> n \<and> n \<le> 90) \<or> (192 \<le> n \<and> n \<le> 222 \<and> n \<noteq> 215)
         then char_of (n + 32) else c)"

definition lower :: "string \<Rightarrow> string" where
  "lower s = map lower_char s"

definition startswith :: "string \<Rightarrow> string \<Rightarrow> bool" where
  "startswith s p = (take (length p) s = p)"

definition endswith :: "string \<Rightarrow> string \<Rightarrow> bool" where
  "endswith s p = (take (length p) (rev s) = rev p)"

definition replace_char :: "char \<Rightarrow> char \<Rightarrow> string \<Rightarrow> string" where
  "replace_char a b s = map (\<lambda>c. if c = a then b else c) s"

text \<open>\<open>str.split()\<close> without arguments: the maximal runs of non-space characters.\<close>

fun split_acc :: "string \<Rightarrow> string \<Rightarrow> string list" where
  "split_acc cur [] = (if cur = [] then [] else [cur])"
| "split_acc cur (c # cs) =
     (if is_space c then (if cur = [] then split_acc [] cs else cur # split_acc [] cs)
      else split_acc (cur @ [c]) cs)"

definition split_ws :: "string \<Rightarrow> string list" where
  "split_ws s = split_acc [] s"

section \<open>The regular expressions\<close>

text \<open>
  The two patterns of the source use only greedy repetitions of a character class,
  some of them a named group.  An item \<open>Rep cls lo hi g\<close> is \<open>cls{lo,hi}\<close> (no upper
  bound when \<open>hi = None\<close>) captured as group \<open>g\<close>.  \<open>re_match\<close> is the backtracking
  matcher of \<open>re\<close>: a repetition first takes as many characters as it can and gives
  them back one at a time; the first success wins.  It returns the number of
  characters consumed and the groups.
\<close>

datatype re_item = Rep "char \<Rightarrow> bool" nat "nat option" "string option"

fun cands :: "re_item \<Rightarrow> string \<Rightarrow> nat list" where
  "cands (Rep cls lo hi g) s =
     (let n = length (takeWhile cls s);
          m = (case hi of None \<Rightarrow> n | Some h \<Rightarrow> min n h)
      in if m < lo then [] else rev [lo..<Suc m])"

fun bind_group :: "re_item \<Rightarrow> string \<Rightarrow> (string \<times> string) list \<Rightarrow> (string \<times> string) list" where
  "bind_group (Rep cls lo hi None) txt caps = caps"
| "bind_group (Rep cls lo hi (Some g)) txt caps = (g, txt) # caps"

fun first_some :: "'a option list \<Rightarrow> 'a option" where
  "first_some [] = None"
| "first_some (None # xs) = first_some xs"
| "first_some (Some x # xs) = Some x"

primrec re_match :: "re_item list \<Rightarrow> string \<Rightarrow> (nat \<times> (string \<times> string) list) option" where
  "re_match [] s = Some (0, [])"
| "re_match (it # its) s =
     first_some (map (\<lambda>k. case re_match its (drop k s) of
                              None \<Rightarrow> None
                            | Some (n, caps) \<Rightarrow> Some (k + n, bind_group it (take k s) caps))
                     (cands it s))"

text \<open>\<open>pattern.search\<close>: the first position at which the pattern matches; the matched text.\<close>

fun re_search :: "re_item list \<Rightarrow> string \<Rightarrow> string option" where
  "re_search its [] = (case re_match its [] of None \<Rightarrow> None | Some (n, caps) \<Rightarrow> Some [])"
| "re_search its (c # cs) =
     (case re_match its (c # cs) of
        None \<Rightarrow> re_search its cs
      | Some (n, caps) \<Rightarrow> Some (take n (c # cs)))"

definition cls_dash_slash :: "char \<Rightarrow> bool" where
  "cls_dash_slash c = (c = CHR ''-'' \<or> c = CHR ''/'')"

definition cls_not_colon_nl :: "char \<Rightarrow> bool" where
  "cls_not_colon_nl c = (c \<noteq> CHR '':'' \<and> c \<noteq> CHR 0x0A)"

definition cls_not_comma_space :: "char \<Rightarrow> bool" where
  "cls_not_comma_space c = (c \<noteq> CHR '','' \<and> \<not> is_space c)"

definition cls_not_comma :: "char \<Rightarrow> bool" where
  "cls_not_comma c = (c \<noteq> CHR '','')"

definition cls_not_nl :: "char \<Rightarrow> bool" where
  "cls_not_nl c = (c \<noteq> CHR 0x0A)"

definition cls_char :: "char \<Rightarrow> char \<Rightarrow> bool" where
  "cls_char x c = (c = x)"

text \<open>\<open>DATE_RE = (\d{4}[-/]\d{2}[-/]\d{2})\<close>; its only group is the whole match.\<close>

definition DATE_RE :: "re_item list" where
  "DATE_RE = [Rep is_digit 4 (Some 4) None, Rep cls_dash_slash 1 (Some 1) None,
              Rep is_digit 2 (Some 2) None, Rep cls_dash_slash 1 (Some 1) None,
              Rep is_digit 2 (Some 2) None]"

text \<open>
  \<open>TASK_RE = ^\s*(?P<name>[^:\n]+)\s*:\s*(?P<id>[^,\s]+)\s*,\s*(?P<start>[^,]+)\s*,\s*(?P<len>[^\n]+)\<close>,
  used with \<open>match\<close>, which anchors it at the start of the line.  The flag
  \<open>IGNORECASE\<close> changes nothing: the pattern has no letter.
\<close>

definition TASK_RE :: "re_item list" where
  "TASK_RE = [Rep is_space 0 None None,
              Rep cls_not_colon_nl 1 None (Some ''name''),
              Rep is_space 0 None None,
              Rep (cls_char CHR '':'') 1 (Some 1) None,
              Rep is_space 0 None None,
              Rep cls_not_comma_space 1 None (Some ''id''),
              Rep is_space 0 None None,
              Rep (cls_char CHR '','') 1 (Some 1) None,
              Rep is_space 0 None None,
              Rep cls_not_comma 1 None (Some ''start''),
              Rep is_space 0 None None,
              Rep (cls_char CHR '','') 1 (Some 1) None,
              Rep is_space 0 None None,
              Rep cls_not_nl 1 None (Some ''len'')]"

definition group :: "(string \<times> string) list \<Rightarrow> string \<Rightarrow> string" where
  "group caps g = (case map_of caps g of None \<Rightarrow> [] | Some v \<Rightarrow> v)"

section \<open>Integers and dates\<close>

text \<open>
  \<open>int(s)\<close> on a string: surrounding white space is dropped, a sign may follow, then
  decimal digits, where single underscores may stand between two digits.  \<open>None\<close> is
  the \<open>ValueError\<close> of \<open>int\<close>.  (The limit on the number of digits that recent
  interpreters put on \<open>int\<close> is not modelled.)
\<close>

fun int_digits :: "string \<Rightarrow> bool" where
  "int_digits [] = False"
| "int_digits [c] = is_digit c"
| "int_digits (c # d # r) =
     (is_digit c \<and> (if d = CHR ''_'' then int_digits r else int_digits (d # r)))"

definition dec_value :: "string \<Rightarrow> int" where
  "dec_value s = foldl (\<lambda>a c. 10 * a + digit_val c) 0 (filter is_digit s)"

definition unsigned_int :: "string \<Rightarrow> int option" where
  "unsigned_int s = (if int_digits s then Some (dec_value s) else None)"

definition py_int :: "string \<Rightarrow> int option" where
  "py_int s =
     (case strip s of
        [] \<Rightarrow> None
      | c # r \<Rightarrow>
          if c = CHR ''-'' then map_option uminus (unsigned_int r)
          else if c = CHR ''+'' then unsigned_int r
          else unsigned_int (c # r))"

text \<open>
  A \<open>datetime\<close> is the number of microseconds since 0001-01-01T00:00:00, the first
  instant of the type; \<open>max_datetime\<close> is 9999-12-31T23:59:59.999999, the last one.
  \<open>timedelta(days=n)\<close> exists for \<open>|n| \<le> 999999999\<close> only, and \<open>datetime + timedelta\<close>
  raises \<open>OverflowError\<close> when the sum leaves the type.
\<close>

type_synonym datetime = int

datatype error =
    NoTasksProvided     \<comment> \<open>\<open>ValueError("no tasks provided")\<close>\<close>
  | InvalidIntLiteral   \<comment> \<open>the \<open>ValueError\<close> of \<open>int\<close>\<close>
  | InvalidDate         \<comment> \<open>the \<open>ValueError\<close> of \<open>datetime.fromisoformat\<close>\<close>
  | DateOverflow        \<comment> \<open>the \<open>OverflowError\<close> of \<open>timedelta\<close> and of \<open>datetime + timedelta\<close>\<close>

definition us_per_day :: int where
  "us_per_day = 86400000000"

definition max_datetime :: datetime where
  "max_datetime = 3652059 * us_per_day - 1"

definition valid_datetime :: "datetime \<Rightarrow> bool" where
  "valid_datetime t = (0 \<le> t \<and> t \<le> max_datetime)"

definition is_leap :: "int \<Rightarrow> bool" where
  "is_leap y = (y mod 4 = 0 \<and> (y mod 100 \<noteq> 0 \<or> y mod 400 = 0))"

definition days_in_month :: "int \<Rightarrow> int \<Rightarrow> int" where
  "days_in_month y m =
     (if m = 2 then (if is_leap y then 29 else 28)
      else if m = 4 \<or> m = 6 \<or> m = 9 \<or> m = 11 then 30 else 31)"

definition days_before_year :: "int \<Rightarrow> int" where
  "days_before_year y = (y - 1) * 365 + (y - 1) div 4 - (y - 1) div 100 + (y - 1) div 400"

definition days_before_month :: "int \<Rightarrow> int \<Rightarrow> int" where
  "days_before_month y m = sum_list (map (days_in_month y) [1..m - 1])"

definition ymd2ord :: "int \<Rightarrow> int \<Rightarrow> int \<Rightarrow> int" where
  "ymd2ord y m d = days_before_year y + days_before_month y m + d"

definition mk_date :: "int \<Rightarrow> int \<Rightarrow> int \<Rightarrow> error + datetime" where
  "mk_date y m d =
     (if 1 \<le> y \<and> y \<le> 9999 \<and> 1 \<le> m \<and> m \<le> 12 \<and> 1 \<le> d \<and> d \<le> days_in_month y m
      then Inr ((ymd2ord y m d - 1) * us_per_day) else Inl InvalidDate)"

text \<open>
  \<open>datetime.fromisoformat\<close> on the text of a \<open>DATE_RE\<close> match whose slashes were
  replaced by dashes, the only strings the source gives it: \<open>YYYY-MM-DD\<close>, midnight.
\<close>

definition fromisoformat :: "string \<Rightarrow> error + datetime" where
  "fromisoformat s =
     (if length s = 10 \<and> list_all is_digit (take 4 s) \<and> s ! 4 = CHR ''-''
         \<and> list_all is_digit (take 2 (drop 5 s)) \<and> s ! 7 = CHR ''-''
         \<and> list_all is_digit (drop 8 s)
      then mk_date (dec_value (take 4 s)) (dec_value (take 2 (drop 5 s))) (dec_value (drop 8 s))
      else Inl InvalidDate)"

definition add_days :: "datetime \<Rightarrow> int \<Rightarrow> error + datetime" where
  "add_days t n =
     (if n < - 999999999 \<or> 999999999 < n then Inl DateOverflow
      else if valid_datetime (t + n * us_per_day) then Inr (t + n * us_per_day)
      else Inl DateOverflow)"

text \<open>\<open>(a - b).days\<close>: a \<open>timedelta\<close> keeps the floor of its length in days.\<close>

definition days_between :: "datetime \<Rightarrow> datetime \<Rightarrow> int" where
  "days_between a b = (a - b) div us_per_day"

section \<open>Records and tasks\<close>

text \<open>The dictionary appended to \<open>raw_tasks\<close> for each task line.\<close>

record raw_task =
  raw_name :: string
  raw_id :: string
  start_raw :: string
  len_raw :: string
  raw_section :: "string option"

record task =
  task_name :: string
  task_id :: string
  task_start :: datetime
  length_days :: int
  task_section :: "string option"

text \<open>\<open>Task.__init__\<close> strips the name and the id.\<close>

definition Task :: "string \<Rightarrow> string \<Rightarrow> datetime \<Rightarrow> int \<Rightarrow> string option \<Rightarrow> task" where
  "Task nm i st n sec =
     \<lparr>task_name = strip nm, task_id = strip i, task_start = st, length_days = n,
      task_section = sec\<rparr>"

text \<open>\<open>Task.end\<close>.\<close>

definition task_end :: "task \<Rightarrow> error + datetime" where
  "task_end t = add_days (task_start t) (length_days t)"

section \<open>Reading the lines\<close>

record line_state =
  in_gantt :: bool
  current_section :: "string option"
  raw_tasks :: "raw_task list"

text \<open>The body of the loop over \<open>text.splitlines()\<close>.\<close>

definition read_line :: "line_state \<Rightarrow> string \<Rightarrow> line_state" where
  "read_line st line0 =
     (let line = rstrip line0 in
      if \<not> in_gantt st then
        (if startswith (lower (strip line)) ''gantt'' then st\<lparr>in_gantt := True\<rparr> else st)
      else if strip line = [] \<or> startswith (strip line) ''%%'' then st
      else
        (case re_match TASK_RE line of
           None \<Rightarrow>
             (let s = strip line in
              if startswith (lower s) ''section''
              then st\<lparr>current_section := Some (strip (drop (length ''section'') s))\<rparr>
              else st)
         | Some (n, m) \<Rightarrow>
             st\<lparr>raw_tasks := raw_tasks st @
                  [\<lparr>raw_name = strip (group m ''name''), raw_id = strip (group m ''id''),
                    start_raw = strip (group m ''start''), len_raw = strip (group m ''len''),
                    raw_section = current_section st\<rparr>]\<rparr>))"

definition read_lines :: "string list \<Rightarrow> line_state" where
  "read_lines ls =
     foldl read_line \<lparr>in_gantt = False, current_section = None, raw_tasks = []\<rparr> ls"

section \<open>Resolving the records\<close>

definition find_date :: "string \<Rightarrow> string option" where
  "find_date s = map_option (replace_char CHR ''/'' CHR ''-'') (re_search DATE_RE s)"

definition parse_length :: "string \<Rightarrow> datetime \<Rightarrow> error + int" where
  "parse_length lraw start_dt =
     (let lr = strip lraw in
      if endswith lr ''d'' then
        (case py_int (butlast lr) of None \<Rightarrow> Inl InvalidIntLiteral | Some n \<Rightarrow> Inr n)
      else if endswith lr ''w'' then
        (case py_int (butlast lr) of None \<Rightarrow> Inl InvalidIntLiteral | Some n \<Rightarrow> Inr (n * 7))
      else
        (case find_date lr of
           Some ds \<Rightarrow>
             (case fromisoformat ds of
                Inl e \<Rightarrow> Inl e
              | Inr end_dt \<Rightarrow> Inr (days_between end_dt start_dt))
         | None \<Rightarrow> (case py_int lr of None \<Rightarrow> Inr 1 | Some n \<Rightarrow> Inr n)))"

text \<open>
  \<open>datetime.now()\<close> is read from a clock: \<open>clk k\<close> is what the \<open>k\<close>-th read returns,
  and the state counts the reads.  The state of the resolution: the dictionary
  \<open>id_to_task\<close>, the list \<open>tasks\<close>, the lists \<open>unresolved\<close> and \<open>remaining\<close>, the flag
  \<open>progressed\<close>, and the number of passes begun.
\<close>

type_synonym clock = "nat \<Rightarrow> datetime"

record rstate =
  id_to_task :: "string \<Rightarrow> task option"
  tasks :: "task list"
  unresolved :: "raw_task list"
  remaining :: "raw_task list"
  progressed :: bool
  reads :: nat
  passes :: nat

text \<open>
  The start of a record in a pass: \<open>Inr None\<close> when the record cannot be resolved yet
  (it is appended to \<open>remaining\<close>), otherwise the start and the new number of clock
  reads.
\<close>

definition resolve_start ::
  "clock \<Rightarrow> (string \<Rightarrow> task option) \<Rightarrow> nat \<Rightarrow> string \<Rightarrow> error + (datetime \<times> nat) option" where
  "resolve_start clk tbl k sraw =
     (case find_date sraw of
        Some ds \<Rightarrow>
          (case fromisoformat ds of Inl e \<Rightarrow> Inl e | Inr d \<Rightarrow> Inr (Some (d, k)))
      | None \<Rightarrow>
          if startswith (lower sraw) ''after'' then
            (case split_ws sraw of
               p0 # p1 # ps \<Rightarrow>
                 (case tbl (strip_chars CHR '','' (strip p1)) of
                    None \<Rightarrow> Inr None
                  | Some ref_task \<Rightarrow>
                      (case task_end ref_task of
                         Inl e \<Rightarrow> Inl e
                       | Inr d \<Rightarrow> Inr (Some (d, k))))
             | _ \<Rightarrow> Inr None)
          else Inr (Some (clk k, Suc k)))"

text \<open>
  \<open>deferred tbl s\<close>: the start field \<open>s\<close> is one that the loop body cannot resolve with
  the dictionary \<open>tbl\<close>, the two branches that end in \<open>remaining.append(r)\<close>: no date
  literal, the keyword \<open>after\<close>, and either no second token or a second token that is
  no key of \<open>tbl\<close>.
\<close>

definition deferred :: "(string \<Rightarrow> task option) \<Rightarrow> string \<Rightarrow> bool" where
  "deferred tbl s =
     (find_date s = None \<and> startswith (lower s) ''after''
      \<and> (case split_ws s of
            p0 # p1 # ps \<Rightarrow> tbl (strip_chars CHR '','' (strip p1)) = None
          | _ \<Rightarrow> True))"

text \<open>The body of the loop over \<open>unresolved\<close> in one pass.\<close>

definition resolve_record :: "clock \<Rightarrow> rstate \<Rightarrow> raw_task \<Rightarrow> error + rstate" where
  "resolve_record clk st r =
     (case resolve_start clk (id_to_task st) (reads st) (start_raw r) of
        Inl e \<Rightarrow> Inl e
      | Inr None \<Rightarrow> Inr (st\<lparr>remaining := remaining st @ [r]\<rparr>)
      | Inr (Some (start_dt, k)) \<Rightarrow>
          (case parse_length (len_raw r) start_dt of
             Inl e \<Rightarrow> Inl e
           | Inr n \<Rightarrow>
               (let t = Task (raw_name r) (raw_id r) start_dt (max 1 n) (raw_section r)
                in Inr (st\<lparr>id_to_task := (id_to_task st)(task_id t \<mapsto> t),
                           tasks := tasks st @ [t], progressed := True, reads := k\<rparr>))))"

fun pass_records :: "clock \<Rightarrow> rstate \<Rightarrow> raw_task list \<Rightarrow> error + rstate" where
  "pass_records clk st [] = Inr st"
| "pass_records clk st (r # rs) =
     (case resolve_record clk st r of
        Inl e \<Rightarrow> Inl e
      | Inr st' \<Rightarrow> pass_records clk st' rs)"

text \<open>
  \<open>for _ in range(max_passes)\<close>: the first argument is the number of passes left.
  A pass that resolves nothing leaves the loop before \<open>unresolved = remaining\<close>.
\<close>

fun run_passes :: "clock \<Rightarrow> nat \<Rightarrow> rstate \<Rightarrow> error + rstate" where
  "run_passes clk 0 st = Inr st"
| "run_passes clk (Suc n) st =
     (case pass_records clk (st\<lparr>progressed := False, remaining := [], passes := Suc (passes st)\<rparr>)
             (unresolved st) of
        Inl e \<Rightarrow> Inl e
      | Inr st' \<Rightarrow>
          if \<not> progressed st' then Inr st'
          else run_passes clk n (st'\<lparr>unresolved := remaining st'\<rparr>))"

definition max_passes :: nat where
  "max_passes = 10"

definition init_state :: "raw_task list \<Rightarrow> rstate" where
  "init_state rs =
     \<lparr>id_to_task = Map.empty, tasks = [], unresolved = rs, remaining = [],
      progressed = False, reads = 0, passes = 0\<rparr>"

text \<open>
  \<open>table_of ts\<close>: the dictionary that \<open>id_to_task[task.id] = task\<close> builds when it runs
  over the tasks \<open>ts\<close> in order, a later task replacing an earlier one of the same id.
\<close>

definition table_of :: "task list \<Rightarrow> string \<Rightarrow> task option" where
  "table_of ts = map_of (rev (map (\<lambda>t. (task_id t, t)) ts))"

text \<open>\<open>min((t.start for t in tasks), default=datetime.now())\<close>.\<close>

definition fallback_start :: "clock \<Rightarrow> rstate \<Rightarrow> datetime" where
  "fallback_start clk st =
     (case tasks st of
        [] \<Rightarrow> clk (reads st)
      | t # ts \<Rightarrow> fold min (map task_start ts) (task_start t))"

text \<open>
  The loop that places what is still unresolved at the fallback start.  It appends to
  \<open>tasks\<close> and does not write \<open>id_to_task\<close>.
\<close>

fun force_records :: "datetime \<Rightarrow> rstate \<Rightarrow> raw_task list \<Rightarrow> error + rstate" where
  "force_records fb st [] = Inr st"
| "force_records fb st (r # rs) =
     (case parse_length (len_raw r) fb of
        Inl e \<Rightarrow> Inl e
      | Inr n \<Rightarrow>
          force_records fb
            (st\<lparr>tasks := tasks st @ [Task (raw_name r) (raw_id r) fb (max 1 n) (raw_section r)]\<rparr>)
            rs)"

text \<open>\<open>forced_from fb r t\<close>: \<open>t\<close> is the task that this loop builds from the record \<open>r\<close>.\<close>

definition forced_from :: "datetime \<Rightarrow> raw_task \<Rightarrow> task \<Rightarrow> bool" where
  "forced_from fb r t =
     (\<exists>n. parse_length (len_raw r) fb = Inr n
          \<and> t = Task (raw_name r) (raw_id r) fb (max 1 n) (raw_section r))"

text \<open>\<open>if unresolved: ...\<close>; the default of \<open>min\<close> is computed in any case, one clock read.\<close>

definition force_unresolved :: "clock \<Rightarrow> rstate \<Rightarrow> error + rstate" where
  "force_unresolved clk st =
     (if unresolved st = [] then Inr st
      else force_records (fallback_start clk st) (st\<lparr>reads := Suc (reads st)\<rparr>) (unresolved st))"

text \<open>
  The second half of \<open>parse_mermaid\<close>, from \<open>raw_tasks\<close> on: \<open>resolve_state\<close> is the state
  at the \<open>return\<close>, \<open>resolve\<close> the list \<open>tasks\<close> that is returned.
\<close>

definition resolve_state :: "clock \<Rightarrow> raw_task list \<Rightarrow> error + rstate" where
  "resolve_state clk rs =
     (case run_passes clk max_passes (init_state rs) of
        Inl e \<Rightarrow> Inl e
      | Inr st \<Rightarrow> force_unresolved clk st)"

definition resolve :: "clock \<Rightarrow> raw_task list \<Rightarrow> error + task list" where
  "resolve clk rs =
     (case resolve_state clk rs of Inl e \<Rightarrow> Inl e | Inr st \<Rightarrow> Inr (tasks st))"

text \<open>\<open>parse_mermaid\<close>, on the lines that \<open>text.splitlines()\<close> gives.\<close>

definition parse_mermaid :: "clock \<Rightarrow> string list \<Rightarrow> error + task list" where
  "parse_mermaid clk ls = resolve clk (raw_tasks (read_lines ls))"

section \<open>The layout\<close>

definition DAY_WIDTH :: int where "DAY_WIDTH = 20"
definition TASK_HEIGHT :: int where "TASK_HEIGHT = 20"
definition MARGIN :: int where "MARGIN = 40"






















section \<open>Reading the document\<close>





text \<open>
  The rule of the specification for the labels, in its words: go through the ticks from
  left to right and keep a label when its position is at least \<open>gap\<close> away from the
  position of the last label kept, \<open>prev\<close>.
\<close>

fun greedy_labels :: "int \<Rightarrow> int \<Rightarrow> int list \<Rightarrow> int list" where
  "greedy_labels gap prev [] = []"
| "greedy_labels gap prev (x # xs) =
     (if x - prev \<ge> gap then x # greedy_labels gap x xs else greedy_labels gap prev xs)"

section \<open>Properties of the resolver: raising inputs\<close>

text \<open>
  C1. The claim: for every list of records the resolver returns one Task per record and
  never raises, also for a length such as \<open>2.5d\<close> and for a date-shaped token that is
  no calendar date, such as \<open>2024-13-45\<close>.  The code raises on both: \<open>int\<close> is
  unguarded in the branches for a trailing \<open>d\<close> or \<open>w\<close>, and
  \<open>datetime.fromisoformat\<close> is unguarded everywhere.  The first line is a whole
  input text; the two others are records with the bad date as start and as length.
\<close>

theorem resolve_raises_on_bad_fields:
  "parse_mermaid clk [''gantt'', ''Task A :a1, 2024-01-01, 2.5d''] = Inl InvalidIntLiteral
   \<and> resolve clk [\<lparr>raw_name = ''Task A'', raw_id = ''a1'', start_raw = ''2024-13-45'',
                     len_raw = ''5d'', raw_section = None\<rparr>] = Inl InvalidDate
   \<and> resolve clk [\<lparr>raw_name = ''Task A'', raw_id = ''a1'', start_raw = ''2024-01-01'',
                     len_raw = ''2024-13-45'', raw_section = None\<rparr>] = Inl InvalidDate"
  by code_simp

section \<open>Properties of the line reader\<close>

text \<open>
  C7. The claim: inside a gantt block every line that begins with \<open>section\<close> sets the
  active section and produces no record, also when the section name has a colon and
  commas.  The code tries \<open>TASK_RE\<close> first, and such a line matches it: the line below
  becomes a record named \<open>section Phase 1\<close>, and the active section stays unset.
\<close>

theorem section_line_with_colon_is_read_as_task:
  "raw_tasks (read_lines [''gantt'', ''section Phase 1: design, build, test'']) =
     [\<lparr>raw_name = ''section Phase 1'', raw_id = ''design'', start_raw = ''build'',
       len_raw = ''test'', raw_section = None\<rparr>]
   \<and> current_section (read_lines [''gantt'', ''section Phase 1: design, build, test'']) = None"
  by code_simp

section \<open>The passes\<close>

lemma max_passes_Suc: "max_passes = Suc 9"
  by (simp add: max_passes_def)



lemma run_passes_max:
  "run_passes clk max_passes st =
     (case pass_records clk (st\<lparr>progressed := False, remaining := [], passes := Suc (passes st)\<rparr>)
             (unresolved st) of
        Inl e \<Rightarrow> Inl e
      | Inr st' \<Rightarrow>
          if \<not> progressed st' then Inr st'
          else run_passes clk 9 (st'\<lparr>unresolved := remaining st'\<rparr>))"
  by (simp only: max_passes_Suc run_passes.simps)




section \<open>Length fields\<close>



section \<open>Invariants of the resolver\<close>

lemma resolve_record_cases:
  assumes "resolve_record clk st r = Inr st'"
  obtains
    (deferred) "resolve_start clk (id_to_task st) (reads st) (start_raw r) = Inr None"
      "st' = st\<lparr>remaining := remaining st @ [r]\<rparr>"
  | (resolved) s k n where
      "resolve_start clk (id_to_task st) (reads st) (start_raw r) = Inr (Some (s, k))"
      "parse_length (len_raw r) s = Inr n"
      "st' = st\<lparr>id_to_task := (id_to_task st)
                   (strip (raw_id r) \<mapsto> Task (raw_name r) (raw_id r) s (max 1 n) (raw_section r)),
                 tasks := tasks st @ [Task (raw_name r) (raw_id r) s (max 1 n) (raw_section r)],
                 progressed := True, reads := k\<rparr>"
  using assms
  by (auto simp: resolve_record_def Let_def Task_def split: sum.splits option.splits)

lemma resolve_record_len:
  assumes "resolve_record clk st r = Inr st'" "\<forall>t\<in>set (tasks st). 1 \<le> length_days t"
  shows "\<forall>t\<in>set (tasks st'). 1 \<le> length_days t"
  using assms(1)
proof (cases rule: resolve_record_cases)
  case deferred
  then show ?thesis using assms(2) by simp
next
  case (resolved s k n)
  then show ?thesis using assms(2) by (auto simp: Task_def)
qed

lemma pass_records_len:
  assumes "pass_records clk st rs = Inr st'" "\<forall>t\<in>set (tasks st). 1 \<le> length_days t"
  shows "\<forall>t\<in>set (tasks st'). 1 \<le> length_days t"
  using assms
proof (induction rs arbitrary: st)
  case Nil
  then show ?case by simp
next
  case (Cons r rs)
  from Cons.prems(1) obtain st1 where a: "resolve_record clk st r = Inr st1"
    and b: "pass_records clk st1 rs = Inr st'"
    by (auto split: sum.splits)
  show ?case
    using Cons.IH[OF b] resolve_record_len[OF a Cons.prems(2)] by blast
qed

lemma run_passes_len:
  assumes "run_passes clk n st = Inr st'" "\<forall>t\<in>set (tasks st). 1 \<le> length_days t"
  shows "\<forall>t\<in>set (tasks st'). 1 \<le> length_days t"
  using assms
proof (induction n arbitrary: st)
  case 0
  then show ?case by simp
next
  case (Suc n)
  let ?s0 = "st\<lparr>progressed := False, remaining := [], passes := Suc (passes st)\<rparr>"
  from Suc.prems(1) obtain st1 where a: "pass_records clk ?s0 (unresolved st) = Inr st1"
    by (auto split: sum.splits)
  have l1: "\<forall>t\<in>set (tasks st1). 1 \<le> length_days t"
    using pass_records_len[OF a] Suc.prems(2) by simp
  show ?case
  proof (cases "progressed st1")
    case True
    with Suc.prems(1) a have "run_passes clk n (st1\<lparr>unresolved := remaining st1\<rparr>) = Inr st'"
      by simp
    from Suc.IH[OF this] l1 show ?thesis by simp
  next
    case False
    with Suc.prems(1) a have "st' = st1" by simp
    with l1 show ?thesis by simp
  qed
qed

lemma force_records_len:
  assumes "force_records fb st rs = Inr st'" "\<forall>t\<in>set (tasks st). 1 \<le> length_days t"
  shows "\<forall>t\<in>set (tasks st'). 1 \<le> length_days t"
  using assms
proof (induction rs arbitrary: st)
  case Nil
  then show ?case by simp
next
  case (Cons r rs)
  from Cons.prems(1) obtain n where a: "parse_length (len_raw r) fb = Inr n"
    and b: "force_records fb
              (st\<lparr>tasks := tasks st @ [Task (raw_name r) (raw_id r) fb (max 1 n) (raw_section r)]\<rparr>)
              rs = Inr st'"
    by (auto split: sum.splits)
  show ?case
    using Cons.IH[OF b] Cons.prems(2) by (simp add: Task_def)
qed

lemma resolve_split:
  assumes "resolve clk rs = Inr ts"
  obtains st st' where "run_passes clk max_passes (init_state rs) = Inr st"
    and "force_unresolved clk st = Inr st'" and "ts = tasks st'"
  using assms by (auto simp: resolve_def resolve_state_def split: sum.splits)

lemma resolve_len:
  assumes "resolve clk rs = Inr ts"
  shows "\<forall>t\<in>set ts. 1 \<le> length_days t"
proof -
  from assms obtain st st' where a: "run_passes clk max_passes (init_state rs) = Inr st"
    and b: "force_unresolved clk st = Inr st'" and c: "ts = tasks st'"
    by (rule resolve_split)
  have l: "\<forall>t\<in>set (tasks st). 1 \<le> length_days t"
    using run_passes_len[OF a] by (simp add: init_state_def)
  show ?thesis
    using b c l
      force_records_len[of "fallback_start clk st" "st\<lparr>reads := Suc (reads st)\<rparr>"
        "unresolved st" st']
    by (auto simp: force_unresolved_def split: if_splits)
qed

text \<open>
  C3, as amended.  Every task that the resolver returns has \<open>length_days \<ge> 1\<close>, and
  \<open>Task.end\<close> is \<open>start + length_days\<close> days exactly whenever that instant is a
  \<open>datetime\<close> and \<open>length_days\<close> is within the range of a \<open>timedelta\<close>; otherwise
  \<open>Task.end\<close> raises \<open>OverflowError\<close>.
\<close>

theorem task_duration_and_end:
  assumes "resolve clk rs = Inr ts" and "t \<in> set ts"
  shows "1 \<le> length_days t
         \<and> task_end t =
             (if length_days t \<le> 999999999
                 \<and> valid_datetime (task_start t + length_days t * us_per_day)
              then Inr (task_start t + length_days t * us_per_day) else Inl DateOverflow)"
  using resolve_len[OF assms(1)] assms(2) by (auto simp: task_end_def add_days_def)

theorem task_duration_and_end_witness:
  "resolve (\<lambda>k. 0) [\<lparr>raw_name = ''A'', raw_id = ''a1'', start_raw = ''2024-01-01'',
                       len_raw = ''-3'', raw_section = None\<rparr>]
     = Inr [Task ''A'' ''a1'' 63839664000000000 1 None]
   \<and> Task ''A'' ''a1'' 63839664000000000 1 None \<in> set [Task ''A'' ''a1'' 63839664000000000 1 None]
   \<and> 1 \<le> length_days (Task ''A'' ''a1'' 63839664000000000 1 None)
   \<and> task_end (Task ''A'' ''a1'' 63839664000000000 1 None) = Inr 63839750400000000"
proof -
  have r: "resolve (\<lambda>k. 0) [\<lparr>raw_name = ''A'', raw_id = ''a1'', start_raw = ''2024-01-01'',
                       len_raw = ''-3'', raw_section = None\<rparr>]
     = Inr [Task ''A'' ''a1'' 63839664000000000 1 None]" by code_simp
  have m: "Task ''A'' ''a1'' 63839664000000000 1 None \<in> set [Task ''A'' ''a1'' 63839664000000000 1 None]"
    by simp
  have v: "valid_datetime (63839664000000000 + 1 * us_per_day)"
    by (simp add: valid_datetime_def us_per_day_def max_datetime_def)
  from task_duration_and_end[OF r m] v r m show ?thesis
    by (simp add: Task_def us_per_day_def)
qed

text \<open>
  C3, as stated, fails: the record with start \<open>9999-12-31\<close> and length \<open>1d\<close> resolves to
  a task of one day whose \<open>end\<close> is no \<open>datetime\<close>: \<open>Task.end\<close> raises on it.
\<close>

theorem task_end_overflows:
  "resolve (\<lambda>k. 0) [\<lparr>raw_name = ''A'', raw_id = ''a1'', start_raw = ''9999-12-31'',
                       len_raw = ''1d'', raw_section = None\<rparr>]
     = Inr [Task ''A'' ''a1'' 315537811200000000 1 None]
   \<and> task_end (Task ''A'' ''a1'' 315537811200000000 1 None) = Inl DateOverflow"
  by code_simp

section \<open>The bound on the passes and the fallback\<close>

lemma resolve_record_keeps:
  assumes "resolve_record clk st r = Inr st'"
  shows "passes st' = passes st \<and> unresolved st' = unresolved st"
  using assms by (cases rule: resolve_record_cases) auto

lemma pass_records_keeps:
  assumes "pass_records clk st rs = Inr st'"
  shows "passes st' = passes st \<and> unresolved st' = unresolved st"
  using assms
proof (induction rs arbitrary: st)
  case Nil
  then show ?case by simp
next
  case (Cons r rs)
  from Cons.prems obtain st1 where a: "resolve_record clk st r = Inr st1"
    and b: "pass_records clk st1 rs = Inr st'"
    by (auto split: sum.splits)
  show ?case using Cons.IH[OF b] resolve_record_keeps[OF a] by simp
qed

lemma run_passes_bound:
  assumes "run_passes clk n st = Inr st'"
  shows "passes st' \<le> passes st + n \<and> (passes st' < passes st + n \<longrightarrow> \<not> progressed st')"
  using assms
proof (induction n arbitrary: st)
  case 0
  then show ?case by simp
next
  case (Suc n)
  let ?s0 = "st\<lparr>progressed := False, remaining := [], passes := Suc (passes st)\<rparr>"
  from Suc.prems obtain st1 where a: "pass_records clk ?s0 (unresolved st) = Inr st1"
    by (auto split: sum.splits)
  have p: "passes st1 = Suc (passes st)"
    using pass_records_keeps[OF a] by simp
  show ?case
  proof (cases "progressed st1")
    case True
    with Suc.prems a have "run_passes clk n (st1\<lparr>unresolved := remaining st1\<rparr>) = Inr st'"
      by simp
    from Suc.IH[OF this] p show ?thesis by simp
  next
    case False
    with Suc.prems a have "st' = st1" by simp
    with p False show ?thesis by simp
  qed
qed

lemma pass_records_all_deferred:
  assumes "\<forall>r\<in>set rs. resolve_start clk (id_to_task st) (reads st) (start_raw r) = Inr None"
  shows "pass_records clk st rs = Inr (st\<lparr>remaining := remaining st @ rs\<rparr>)"
  using assms
proof (induction rs arbitrary: st)
  case Nil
  then show ?case by simp
next
  case (Cons r rs)
  have a: "resolve_record clk st r = Inr (st\<lparr>remaining := remaining st @ [r]\<rparr>)"
    using Cons.prems by (simp add: resolve_record_def)
  have "pass_records clk (st\<lparr>remaining := remaining st @ [r]\<rparr>) rs
        = Inr (st\<lparr>remaining := remaining st @ [r]\<rparr>\<lparr>remaining := remaining (st\<lparr>remaining := remaining st @ [r]\<rparr>) @ rs\<rparr>)"
    by (rule Cons.IH) (use Cons.prems in simp)
  with a show ?case by simp
qed

lemma force_records_shape:
  assumes "force_records fb st rs = Inr st'"
  shows "\<exists>forced. tasks st' = tasks st @ forced \<and> list_all2 (forced_from fb) rs forced
           \<and> id_to_task st' = id_to_task st"
  using assms
proof (induction rs arbitrary: st)
  case Nil
  then show ?case by simp
next
  case (Cons r rs)
  let ?t = "\<lambda>n. Task (raw_name r) (raw_id r) fb (max 1 n) (raw_section r)"
  from Cons.prems obtain n where a: "parse_length (len_raw r) fb = Inr n"
    and b: "force_records fb (st\<lparr>tasks := tasks st @ [?t n]\<rparr>) rs = Inr st'"
    by (auto split: sum.splits)
  from Cons.IH[OF b] obtain forced where
    f: "tasks st' = (tasks st @ [?t n]) @ forced" "list_all2 (forced_from fb) rs forced"
       "id_to_task st' = id_to_task st"
    by auto
  have "forced_from fb r (?t n)" using a by (auto simp: forced_from_def)
  with f have "tasks st' = tasks st @ (?t n # forced)
       \<and> list_all2 (forced_from fb) (r # rs) (?t n # forced) \<and> id_to_task st' = id_to_task st"
    by simp
  then show ?case by blast
qed

lemma fallback_start_Min:
  "fallback_start clk st =
     (if tasks st = [] then clk (reads st) else Min (task_start ` set (tasks st)))"
proof (cases "tasks st")
  case Nil
  then show ?thesis by (simp add: fallback_start_def)
next
  case (Cons t ts)
  have "fold min (map task_start ts) (task_start t) = Min (set (task_start t # map task_start ts))"
    by (simp only: Min.set_eq_fold)
  with Cons show ?thesis by (simp add: fallback_start_def)
qed

lemma after_start_deferred:
  assumes "find_date s = None" "startswith (lower s) ''after''"
  shows "resolve_start clk Map.empty k s = Inr None"
  using assms by (simp add: resolve_start_def split: list.splits)

lemma force_unresolved_shape:
  assumes "force_unresolved clk st = Inr st'"
  shows "\<exists>forced. tasks st' = tasks st @ forced
           \<and> list_all2 (forced_from (fallback_start clk st)) (unresolved st) forced
           \<and> id_to_task st' = id_to_task st"
proof (cases "unresolved st = []")
  case True
  with assms show ?thesis by (simp add: force_unresolved_def)
next
  case False
  with assms have
    "force_records (fallback_start clk st) (st\<lparr>reads := Suc (reads st)\<rparr>) (unresolved st) = Inr st'"
    by (simp add: force_unresolved_def)
  from force_records_shape[OF this] show ?thesis by simp
qed

lemma resolve_after_pair:
  assumes "find_date (start_raw a) = None" "startswith (lower (start_raw a)) ''after''"
    "find_date (start_raw b) = None" "startswith (lower (start_raw b)) ''after''"
    "parse_length (len_raw a) (clk 0) = Inr na" "parse_length (len_raw b) (clk 0) = Inr nb"
  shows "resolve clk [a, b] =
           Inr [Task (raw_name a) (raw_id a) (clk 0) (max 1 na) (raw_section a),
                Task (raw_name b) (raw_id b) (clk 0) (max 1 nb) (raw_section b)]"
    and "\<exists>st. run_passes clk max_passes (init_state [a, b]) = Inr st \<and> passes st = 1"
proof -
  let ?s0 = "(init_state [a, b])\<lparr>progressed := False, remaining := [],
                passes := Suc (passes (init_state [a, b]))\<rparr>"
  let ?s1 = "?s0\<lparr>remaining := remaining ?s0 @ [a, b]\<rparr>"
  have d: "\<forall>r\<in>set [a, b]. resolve_start clk (id_to_task ?s0) (reads ?s0) (start_raw r) = Inr None"
    using assms(1-4) by (simp add: init_state_def after_start_deferred)
  have p: "pass_records clk ?s0 [a, b] = Inr ?s1"
    by (rule pass_records_all_deferred[OF d])
  have ur: "unresolved (init_state [a, b]) = [a, b]" by (simp add: init_state_def)
  have rp: "run_passes clk max_passes (init_state [a, b]) = Inr ?s1"
    unfolding run_passes_max ur p by (simp add: init_state_def)
  have fb: "fallback_start clk ?s1 = clk 0"
    by (simp add: fallback_start_def init_state_def)
  show "resolve clk [a, b] =
           Inr [Task (raw_name a) (raw_id a) (clk 0) (max 1 na) (raw_section a),
                Task (raw_name b) (raw_id b) (clk 0) (max 1 nb) (raw_section b)]"
    unfolding resolve_def resolve_state_def rp
    using assms(5,6) by (simp add: force_unresolved_def fallback_start_def init_state_def)
  show "\<exists>st. run_passes clk max_passes (init_state [a, b]) = Inr st \<and> passes st = 1"
    unfolding rp by (simp add: init_state_def)
qed

text \<open>
  C4. The loop is \<open>run_passes\<close>, a recursion on the number of passes left, so it ends on
  every input.  From the initial state it begins at most 10 passes, and when it begins
  fewer, the last one resolved nothing.  What is still unresolved is then appended, in
  order, as tasks at the fallback start: the earliest start in \<open>tasks\<close>, or the clock
  when \<open>tasks\<close> is empty.  In particular two records whose starts both are of the
  \<open>after\<close> form, such as a cyclic pair, and whose lengths parse, yield two tasks at the
  instant of the clock, after one pass.
\<close>

theorem passes_bounded_and_cycle_forced:
  "(run_passes clk max_passes (init_state rs) = Inr st \<longrightarrow>
      passes st \<le> 10 \<and> (passes st < 10 \<longrightarrow> \<not> progressed st))
   \<and> (force_unresolved clk st = Inr st' \<longrightarrow>
        (\<exists>forced. tasks st' = tasks st @ forced
           \<and> list_all2 (forced_from (fallback_start clk st)) (unresolved st) forced))
   \<and> fallback_start clk st =
        (if tasks st = [] then clk (reads st) else Min (task_start ` set (tasks st)))
   \<and> (find_date (start_raw a) = None \<and> startswith (lower (start_raw a)) ''after''
        \<and> find_date (start_raw b) = None \<and> startswith (lower (start_raw b)) ''after''
        \<and> parse_length (len_raw a) (clk 0) = Inr na \<and> parse_length (len_raw b) (clk 0) = Inr nb
      \<longrightarrow> resolve clk [a, b] =
           Inr [Task (raw_name a) (raw_id a) (clk 0) (max 1 na) (raw_section a),
                Task (raw_name b) (raw_id b) (clk 0) (max 1 nb) (raw_section b)]
          \<and> (\<exists>s1. run_passes clk max_passes (init_state [a, b]) = Inr s1 \<and> passes s1 = 1))"
proof (intro conjI impI)
  assume r: "run_passes clk max_passes (init_state rs) = Inr st"
  from run_passes_bound[OF r] show "passes st \<le> 10"
    by (simp add: max_passes_def init_state_def)
  assume "passes st < 10"
  with run_passes_bound[OF r] show "\<not> progressed st"
    by (simp add: max_passes_def init_state_def)
next
  assume "force_unresolved clk st = Inr st'"
  from force_unresolved_shape[OF this]
  show "\<exists>forced. tasks st' = tasks st @ forced
           \<and> list_all2 (forced_from (fallback_start clk st)) (unresolved st) forced"
    by blast
next
  show "fallback_start clk st =
        (if tasks st = [] then clk (reads st) else Min (task_start ` set (tasks st)))"
    by (rule fallback_start_Min)
next
  assume h: "find_date (start_raw a) = None \<and> startswith (lower (start_raw a)) ''after''
        \<and> find_date (start_raw b) = None \<and> startswith (lower (start_raw b)) ''after''
        \<and> parse_length (len_raw a) (clk 0) = Inr na \<and> parse_length (len_raw b) (clk 0) = Inr nb"
  then show "resolve clk [a, b] =
           Inr [Task (raw_name a) (raw_id a) (clk 0) (max 1 na) (raw_section a),
                Task (raw_name b) (raw_id b) (clk 0) (max 1 nb) (raw_section b)]"
    by (intro resolve_after_pair(1)) simp_all
  from h show "\<exists>s1. run_passes clk max_passes (init_state [a, b]) = Inr s1 \<and> passes s1 = 1"
    by (intro resolve_after_pair(2)[where na = na and nb = nb]) simp_all
qed


theorem passes_bounded_and_cycle_forced_witness:
  "find_date ''after a2'' = None \<and> startswith (lower ''after a2'') ''after''
   \<and> find_date ''After a1'' = None \<and> startswith (lower ''After a1'') ''after''
   \<and> parse_length ''2d'' 7 = Inr 2 \<and> parse_length ''3d'' 7 = Inr 3
   \<and> resolve (\<lambda>k. 7)
         [\<lparr>raw_name = ''A'', raw_id = ''a1'', start_raw = ''after a2'', len_raw = ''2d'',
           raw_section = None\<rparr>,
          \<lparr>raw_name = ''B'', raw_id = ''a2'', start_raw = ''After a1'', len_raw = ''3d'',
           raw_section = None\<rparr>]
       = Inr [Task ''A'' ''a1'' 7 2 None, Task ''B'' ''a2'' 7 3 None]"
proof -
  let ?a = "\<lparr>raw_name = ''A'', raw_id = ''a1'', start_raw = ''after a2'', len_raw = ''2d'',
           raw_section = None\<rparr>"
  let ?b = "\<lparr>raw_name = ''B'', raw_id = ''a2'', start_raw = ''After a1'', len_raw = ''3d'',
           raw_section = None\<rparr>"
  have h: "find_date ''after a2'' = None \<and> startswith (lower ''after a2'') ''after''
   \<and> find_date ''After a1'' = None \<and> startswith (lower ''After a1'') ''after''
   \<and> parse_length ''2d'' 7 = Inr 2 \<and> parse_length ''3d'' 7 = Inr 3"
    by code_simp
  note T = passes_bounded_and_cycle_forced[of "\<lambda>k. 7" "[]" "init_state []" "init_state []"
      ?a ?b 2 3, THEN conjunct2, THEN conjunct2, THEN conjunct2]
  have "resolve (\<lambda>k. 7) [?a, ?b] = Inr [Task ''A'' ''a1'' 7 2 None, Task ''B'' ''a2'' 7 3 None]"
    using T h by simp
  with h show ?thesis by blast
qed

section \<open>The dictionary of resolved tasks\<close>

lemma resolve_start_None_iff:
  "resolve_start clk tbl k s = Inr None \<longleftrightarrow> deferred tbl s"
  by (auto simp: resolve_start_def deferred_def split: option.splits sum.splits list.splits)

lemma deferred_mono:
  assumes "deferred tbl' s" "dom tbl \<subseteq> dom tbl'"
  shows "deferred tbl s"
  using assms by (auto simp: deferred_def split: list.splits)

lemma resolve_record_table:
  assumes "resolve_record clk st r = Inr st'" "id_to_task st = table_of (tasks st)"
  shows "id_to_task st' = table_of (tasks st')"
  using assms(1)
proof (cases rule: resolve_record_cases)
  case deferred
  then show ?thesis using assms(2) by simp
next
  case (resolved s k n)
  then show ?thesis using assms(2) by (simp add: table_of_def Task_def)
qed

lemma pass_records_table:
  assumes "pass_records clk st rs = Inr st'" "id_to_task st = table_of (tasks st)"
  shows "id_to_task st' = table_of (tasks st')"
  using assms
proof (induction rs arbitrary: st)
  case Nil
  then show ?case by simp
next
  case (Cons r rs)
  from Cons.prems(1) obtain st1 where a: "resolve_record clk st r = Inr st1"
    and b: "pass_records clk st1 rs = Inr st'"
    by (auto split: sum.splits)
  show ?case
    using Cons.IH[OF b] resolve_record_table[OF a Cons.prems(2)] by blast
qed

lemma run_passes_table:
  assumes "run_passes clk n st = Inr st'" "id_to_task st = table_of (tasks st)"
  shows "id_to_task st' = table_of (tasks st')"
  using assms
proof (induction n arbitrary: st)
  case 0
  then show ?case by simp
next
  case (Suc n)
  let ?s0 = "st\<lparr>progressed := False, remaining := [], passes := Suc (passes st)\<rparr>"
  from Suc.prems(1) obtain st1 where a: "pass_records clk ?s0 (unresolved st) = Inr st1"
    by (auto split: sum.splits)
  have t1: "id_to_task st1 = table_of (tasks st1)"
    using pass_records_table[OF a] Suc.prems(2) by simp
  show ?case
  proof (cases "progressed st1")
    case True
    with Suc.prems(1) a have "run_passes clk n (st1\<lparr>unresolved := remaining st1\<rparr>) = Inr st'"
      by simp
    from Suc.IH[OF this] t1 show ?thesis by simp
  next
    case False
    with Suc.prems(1) a have "st' = st1" by simp
    with t1 show ?thesis by simp
  qed
qed

lemma resolve_record_waiting:
  assumes "resolve_record clk st r = Inr st'"
    and "\<forall>x\<in>S. deferred (id_to_task st) (start_raw x) \<longrightarrow> x \<in> set (remaining st) \<union> set (r # rs)"
  shows "\<forall>x\<in>S. deferred (id_to_task st') (start_raw x) \<longrightarrow> x \<in> set (remaining st') \<union> set rs"
  using assms(1)
proof (cases rule: resolve_record_cases)
  case deferred
  then show ?thesis using assms(2) by auto
next
  case (resolved s k n)
  have nd: "\<not> deferred (id_to_task st) (start_raw r)"
    using resolved(1) resolve_start_None_iff[of clk "id_to_task st" "reads st" "start_raw r"]
    by simp
  show ?thesis
  proof (intro ballI impI)
    fix x assume x: "x \<in> S" and d: "deferred (id_to_task st') (start_raw x)"
    have "dom (id_to_task st) \<subseteq> dom (id_to_task st')"
      using resolved(3) by auto
    from deferred_mono[OF d this] have d0: "deferred (id_to_task st) (start_raw x)" .
    with assms(2) x have "x \<in> set (remaining st) \<union> set (r # rs)" by blast
    moreover have "x \<noteq> r" using d0 nd by auto
    ultimately show "x \<in> set (remaining st') \<union> set rs"
      using resolved(3) by auto
  qed
qed

lemma pass_records_waiting:
  assumes "pass_records clk st rs = Inr st'"
    and "\<forall>x\<in>S. deferred (id_to_task st) (start_raw x) \<longrightarrow> x \<in> set (remaining st) \<union> set rs"
  shows "\<forall>x\<in>S. deferred (id_to_task st') (start_raw x) \<longrightarrow> x \<in> set (remaining st')"
  using assms
proof (induction rs arbitrary: st)
  case Nil
  then show ?case by simp
next
  case (Cons r rs)
  from Cons.prems(1) obtain st1 where a: "resolve_record clk st r = Inr st1"
    and b: "pass_records clk st1 rs = Inr st'"
    by (auto split: sum.splits)
  show ?case
    by (rule Cons.IH[OF b resolve_record_waiting[OF a Cons.prems(2)]])
qed

lemma pass_records_remaining:
  assumes "pass_records clk st rs = Inr st'"
  shows "set (remaining st') \<subseteq> set (remaining st) \<union> set rs"
  using assms
proof (induction rs arbitrary: st)
  case Nil
  then show ?case by simp
next
  case (Cons r rs)
  from Cons.prems(1) obtain st1 where a: "resolve_record clk st r = Inr st1"
    and b: "pass_records clk st1 rs = Inr st'"
    by (auto split: sum.splits)
  have "set (remaining st1) \<subseteq> set (remaining st) \<union> {r}"
    using a by (cases rule: resolve_record_cases) auto
  with Cons.IH[OF b] show ?case by auto
qed

lemma run_passes_waiting:
  assumes "run_passes clk n st = Inr st'"
    and "\<forall>x\<in>S. deferred (id_to_task st) (start_raw x) \<longrightarrow> x \<in> set (unresolved st)"
  shows "\<forall>x\<in>S. deferred (id_to_task st') (start_raw x) \<longrightarrow> x \<in> set (unresolved st')"
  using assms
proof (induction n arbitrary: st)
  case 0
  then show ?case by simp
next
  case (Suc n)
  let ?s0 = "st\<lparr>progressed := False, remaining := [], passes := Suc (passes st)\<rparr>"
  from Suc.prems(1) obtain st1 where a: "pass_records clk ?s0 (unresolved st) = Inr st1"
    by (auto split: sum.splits)
  have w1: "\<forall>x\<in>S. deferred (id_to_task st1) (start_raw x) \<longrightarrow> x \<in> set (remaining st1)"
    by (rule pass_records_waiting[OF a]) (use Suc.prems(2) in simp)
  show ?case
  proof (cases "progressed st1")
    case True
    with Suc.prems(1) a have "run_passes clk n (st1\<lparr>unresolved := remaining st1\<rparr>) = Inr st'"
      by simp
    from Suc.IH[OF this] w1 show ?thesis by simp
  next
    case False
    with Suc.prems(1) a have e: "st' = st1" by simp
    have "set (remaining st1) \<subseteq> set (unresolved st1)"
      using pass_records_remaining[OF a] pass_records_keeps[OF a] by simp
    with w1 e show ?thesis by blast
  qed
qed

text \<open>
  C10. When the loop of passes has ended in state \<open>st\<close>, the dictionary \<open>id_to_task\<close> is
  the one built from the tasks resolved in the passes, each id mapped to the latest of
  them.  The forced resolution, ending in \<open>st'\<close>, appends its tasks to \<open>tasks\<close> and
  leaves the dictionary as it was, so no entry is added or replaced.  A record whose
  \<open>after\<close> target is no key of the dictionary (the target was not resolved in a pass) is
  still unresolved, and its task is one of the forced ones, at the fallback start.
\<close>

theorem forced_tasks_stay_out_of_table:
  assumes "run_passes clk max_passes (init_state rs) = Inr st"
    and "force_unresolved clk st = Inr st'"
  shows "id_to_task st = table_of (tasks st)
    \<and> id_to_task st' = id_to_task st
    \<and> (\<exists>forced. tasks st' = tasks st @ forced
          \<and> list_all2 (forced_from (fallback_start clk st)) (unresolved st) forced
          \<and> (\<forall>r\<in>set rs. deferred (id_to_task st) (start_raw r) \<longrightarrow>
                (\<exists>t\<in>set forced. forced_from (fallback_start clk st) r t
                     \<and> task_start t = fallback_start clk st)))"
proof -
  have a: "id_to_task st = table_of (tasks st)"
    by (rule run_passes_table[OF assms(1)]) (simp add: init_state_def table_of_def)
  have w: "\<forall>x\<in>set rs. deferred (id_to_task st) (start_raw x) \<longrightarrow> x \<in> set (unresolved st)"
    by (rule run_passes_waiting[OF assms(1)]) (simp add: init_state_def)
  from force_unresolved_shape[OF assms(2)] obtain forced where
    f: "tasks st' = tasks st @ forced"
       "list_all2 (forced_from (fallback_start clk st)) (unresolved st) forced"
       "id_to_task st' = id_to_task st"
    by blast
  have "\<exists>t\<in>set forced. forced_from (fallback_start clk st) r t
           \<and> task_start t = fallback_start clk st"
    if "r \<in> set rs" "deferred (id_to_task st) (start_raw r)" for r
  proof -
    from w that have "r \<in> set (unresolved st)" by blast
    then obtain i where i: "i < length (unresolved st)" "unresolved st ! i = r"
      by (auto simp: in_set_conv_nth)
    from f(2) i have "forced_from (fallback_start clk st) r (forced ! i)" "i < length forced"
      by (auto simp: list_all2_conv_all_nth)
    moreover from this have "task_start (forced ! i) = fallback_start clk st"
      by (auto simp: forced_from_def Task_def)
    ultimately show ?thesis by (metis nth_mem)
  qed
  with a f show ?thesis by blast
qed


theorem forced_tasks_stay_out_of_table_witness:
  "\<exists>st st'.
     run_passes (\<lambda>k. 0) max_passes (init_state
       [\<lparr>raw_name = ''C'', raw_id = ''c'', start_raw = ''2024-01-01'', len_raw = ''1d'',
         raw_section = None\<rparr>,
        \<lparr>raw_name = ''A'', raw_id = ''a'', start_raw = ''after zz'', len_raw = ''2d'',
         raw_section = None\<rparr>,
        \<lparr>raw_name = ''B'', raw_id = ''b'', start_raw = ''after a'', len_raw = ''3d'',
         raw_section = None\<rparr>]) = Inr st
     \<and> force_unresolved (\<lambda>k. 0) st = Inr st'
     \<and> id_to_task st' = id_to_task st
     \<and> deferred (id_to_task st) ''after a''
     \<and> (\<exists>t. t \<in> set (tasks st')
           \<and> forced_from (fallback_start (\<lambda>k. 0) st)
             \<lparr>raw_name = ''B'', raw_id = ''b'', start_raw = ''after a'', len_raw = ''3d'',
              raw_section = None\<rparr> t
           \<and> task_start t = fallback_start (\<lambda>k. 0) st)"
proof -
  let ?C = "\<lparr>raw_name = ''C'', raw_id = ''c'', start_raw = ''2024-01-01'', len_raw = ''1d'',
         raw_section = None\<rparr>"
  let ?A = "\<lparr>raw_name = ''A'', raw_id = ''a'', start_raw = ''after zz'', len_raw = ''2d'',
         raw_section = None\<rparr>"
  let ?B = "\<lparr>raw_name = ''B'', raw_id = ''b'', start_raw = ''after a'', len_raw = ''3d'',
         raw_section = None\<rparr>"
  let ?c = "\<lambda>k::nat. 0::int"
  have e1: "case run_passes ?c max_passes (init_state [?C, ?A, ?B]) of
              Inl e \<Rightarrow> False
            | Inr st \<Rightarrow> tasks st = [Task ''C'' ''c'' 63839664000000000 1 None]"
    by code_simp
  then obtain st where st: "run_passes ?c max_passes (init_state [?C, ?A, ?B]) = Inr st"
    and ts: "tasks st = [Task ''C'' ''c'' 63839664000000000 1 None]"
    by (auto split: sum.splits)
  have e2: "case resolve_state ?c [?C, ?A, ?B] of Inl e \<Rightarrow> False | Inr s \<Rightarrow> True"
    by code_simp
  with st obtain st' where st': "force_unresolved ?c st = Inr st'"
    by (auto simp: resolve_state_def split: sum.splits)
  note T = forced_tasks_stay_out_of_table[OF st st']
  have s: "find_date ''after a'' = None \<and> startswith (lower ''after a'') ''after''
           \<and> split_ws ''after a'' = [''after'', ''a'']
           \<and> strip_chars CHR '','' (strip ''a'') = ''a''"
    by code_simp
  have tb: "id_to_task st = table_of (tasks st)"
    using T by (rule conjunct1)
  have sc: "strip ''c'' = ''c''" by code_simp
  have d: "deferred (id_to_task st) ''after a''"
    using s by (simp add: deferred_def tb ts table_of_def Task_def sc)
  from T obtain forced where f: "tasks st' = tasks st @ forced"
    "\<forall>r\<in>set [?C, ?A, ?B]. deferred (id_to_task st) (start_raw r) \<longrightarrow>
                (\<exists>t\<in>set forced. forced_from (fallback_start ?c st) r t
                     \<and> task_start t = fallback_start ?c st)"
    by blast
  from f(2) d have "\<exists>t\<in>set forced. forced_from (fallback_start ?c st) ?B t
                     \<and> task_start t = fallback_start ?c st"
    by simp
  with f(1) have "\<exists>t\<in>set (tasks st'). forced_from (fallback_start ?c st) ?B t
                     \<and> task_start t = fallback_start ?c st"
    by auto
  with st st' T d show ?thesis by blast
qed

section \<open>Starts that refer to another task\<close>















section \<open>The layout: ends, offsets and rows\<close>











section \<open>The layout: the cells of each loop\<close>






lemma greedy_labels_bounds:
  "\<forall>x\<in>set (greedy_labels gap prev xs). x \<in> set xs"
  by (induction xs arbitrary: prev) auto


section \<open>The layout as a whole\<close>







section \<open>Properties of the layout\<close>














end
